theory Spec2Isabelle
  imports Main "HOL-Library.Sublist"
begin

section \<open>The audio player: one worker thread, a queue and a stop flag\<close>

text \<open>
  The class \<^verbatim>\<open>AudioPlayer\<close> of \<^verbatim>\<open>client.py\<close> owns a queue of WAV buffers, a flag
  \<^verbatim>\<open>stop_flag\<close> and the handle \<^verbatim>\<open>play_thread\<close> of the thread that runs
  \<^verbatim>\<open>play_audio\<close>. Its methods are called from one thread only (the event loop, inside
  \<^verbatim>\<open>receive_message\<close>), while \<^verbatim>\<open>play_audio\<close> runs on a thread of its own. The model
  is an interleaving of the two: every statement of the source is one atomic step.

  The position of a worker thread inside \<^verbatim>\<open>play_audio\<close> (lines 32 to 46). A thread that
  is \<open>Returned\<close> or \<open>Raised\<close> has left \<^verbatim>\<open>play_audio\<close>: \<^verbatim>\<open>is_alive()\<close> is false for it.
\<close>

datatype ('a, 'w) worker =
    At_while              \<comment> \<open>line 33, about to test the loop condition\<close>
  | At_get                \<comment> \<open>line 35, about to call \<^verbatim>\<open>get_nowait\<close>\<close>
  | At_from_wave_file 'a  \<comment> \<open>lines 39 and 40, holding the buffer taken from the queue\<close>
  | At_is_playing 'w      \<comment> \<open>lines 42 and 43, the inner loop around \<^verbatim>\<open>sleep\<close>\<close>
  | At_stop_check 'w      \<comment> \<open>lines 45 and 46\<close>
  | Returned              \<comment> \<open>the loop condition was false\<close>
  | Raised                \<comment> \<open>an exception left \<^verbatim>\<open>play_audio\<close>\<close>

fun is_alive :: "('a, 'w) worker \<Rightarrow> bool" where
  "is_alive Returned = False"
| "is_alive Raised = False"
| "is_alive _ = True"

text \<open>
  One statement of \<^verbatim>\<open>play_audio\<close>, acting on the queue and on the play objects that
  are sounding. \<open>from_wave_file\<close> stands for lines 39 and 40
  (\<^verbatim>\<open>WaveObject.from_wave_file(wav_data).play()\<close>), \<open>None\<close> when they raise; a play
  object sounds from then on. \<open>playing\<close> is what \<^verbatim>\<open>play_obj.is_playing()\<close> answers at
  this moment: once the sound has come to its end the answer is no, and the object no
  longer sounds. \<^verbatim>\<open>play_obj.stop()\<close> of line 46 silences the object, and is called
  only if the flag is set at line 45. The only exception handled in the source is
  \<^verbatim>\<open>queue.Empty\<close> (lines 36 and 37), which restarts the loop.
\<close>

fun play_audio_step ::
  "('a \<Rightarrow> 'w option) \<Rightarrow> bool \<Rightarrow> bool \<Rightarrow> 'a list \<Rightarrow> 'w list \<Rightarrow> ('a, 'w) worker
   \<Rightarrow> 'a list \<times> 'w list \<times> ('a, 'w) worker"
where
  "play_audio_step from_wave_file playing flag q s At_while =
     (if \<not> flag \<or> q \<noteq> [] then (q, s, At_get) else (q, s, Returned))"
| "play_audio_step from_wave_file playing flag q s At_get =
     (case q of
        [] \<Rightarrow> (q, s, At_while)
      | wav_data # rest \<Rightarrow> (rest, s, At_from_wave_file wav_data))"
| "play_audio_step from_wave_file playing flag q s (At_from_wave_file wav_data) =
     (case from_wave_file wav_data of
        None \<Rightarrow> (q, s, Raised)
      | Some play_obj \<Rightarrow> (q, s @ [play_obj], At_is_playing play_obj))"
| "play_audio_step from_wave_file playing flag q s (At_is_playing play_obj) =
     (if playing \<and> \<not> flag then (q, s, At_is_playing play_obj)
      else (q, if playing then s else remove1 play_obj s, At_stop_check play_obj))"
| "play_audio_step from_wave_file playing flag q s (At_stop_check play_obj) =
     (q, if flag then remove1 play_obj s else s, At_while)"
| "play_audio_step from_wave_file playing flag q s Returned = (q, s, Returned)"
| "play_audio_step from_wave_file playing flag q s Raised = (q, s, Raised)"

text \<open>
  The position of the calling thread: outside the player, or between two statements of
  \<^verbatim>\<open>start_playing\<close> (lines 48 to 54) or of \<^verbatim>\<open>stop_playing\<close> (lines 56 to 60).
\<close>

datatype 'a caller =
    Outside
  | Start_put 'a   \<comment> \<open>line 49 done, line 50 next\<close>
  | Start_spawn    \<comment> \<open>line 50 done, lines 52 to 54 next\<close>
  | Stop_set       \<comment> \<open>the test of line 57 was true, line 58 next\<close>
  | Stop_join      \<comment> \<open>line 58 done, waiting in \<^verbatim>\<open>join\<close> of line 59\<close>
  | Stop_clear     \<comment> \<open>\<^verbatim>\<open>join\<close> returned, line 60 next\<close>

text \<open>
  The fields of \<^verbatim>\<open>AudioPlayer\<close>, the table of the threads created so far (a thread is
  named by its index), the position of the caller, and the play objects that are
  sounding.
\<close>

record ('a, 'w) player =
  play_thread :: "nat option"
  stop_flag :: bool
  queue :: "'a list"
  threads :: "('a, 'w) worker list"
  caller :: "'a caller"
  sounding :: "'w list"

definition init_player :: "('a, 'w) player" where
  "init_player =
     \<lparr>play_thread = None, stop_flag = False, queue = [], threads = [], caller = Outside,
      sounding = []\<rparr>"

text \<open>\<^verbatim>\<open>self.play_thread and self.play_thread.is_alive()\<close>\<close>

definition thread_alive :: "('a, 'w) player \<Rightarrow> bool" where
  "thread_alive p =
     (case play_thread p of
        None \<Rightarrow> False
      | Some t \<Rightarrow> t < length (threads p) \<and> is_alive (threads p ! t))"

text \<open>The first statement of each method, taken when the caller is outside the player.\<close>

definition enter_start_playing :: "'a \<Rightarrow> ('a, 'w) player \<Rightarrow> ('a, 'w) player" where
  "enter_start_playing wav_data p = p\<lparr>stop_flag := False, caller := Start_put wav_data\<rparr>"

definition enter_stop_playing :: "('a, 'w) player \<Rightarrow> ('a, 'w) player" where
  "enter_stop_playing p = (if thread_alive p then p\<lparr>caller := Stop_set\<rparr> else p)"

text \<open>
  The next statement of the method the caller is in. \<^verbatim>\<open>join\<close> can only be left once the
  thread is no longer alive: until then the caller has no step.
\<close>

definition caller_step :: "('a, 'w) player \<Rightarrow> ('a, 'w) player option" where
  "caller_step p =
     (case caller p of
        Outside \<Rightarrow> None
      | Start_put wav_data \<Rightarrow> Some (p\<lparr>queue := queue p @ [wav_data], caller := Start_spawn\<rparr>)
      | Start_spawn \<Rightarrow>
          Some (if thread_alive p then p\<lparr>caller := Outside\<rparr>
                else p\<lparr>threads := threads p @ [At_while],
                       play_thread := Some (length (threads p)),
                       caller := Outside\<rparr>)
      | Stop_set \<Rightarrow> Some (p\<lparr>stop_flag := True, caller := Stop_join\<rparr>)
      | Stop_join \<Rightarrow> (if thread_alive p then None else Some (p\<lparr>caller := Stop_clear\<rparr>))
      | Stop_clear \<Rightarrow> Some (p\<lparr>play_thread := None, caller := Outside\<rparr>))"

text \<open>A live thread \<open>t\<close> executes one statement of \<^verbatim>\<open>play_audio\<close>.\<close>

definition worker_step ::
  "('a \<Rightarrow> 'w option) \<Rightarrow> nat \<Rightarrow> bool \<Rightarrow> ('a, 'w) player \<Rightarrow> ('a, 'w) player option"
where
  "worker_step from_wave_file t playing p =
     (if t < length (threads p) \<and> is_alive (threads p ! t) then
        (case play_audio_step from_wave_file playing (stop_flag p) (queue p) (sounding p)
                (threads p ! t) of
           (q, s, w) \<Rightarrow> Some (p\<lparr>queue := q, sounding := s, threads := (threads p)[t := w]\<rparr>))
      else None)"

text \<open>
  What can happen next: the caller enters one of the two methods, the caller executes its
  next statement, or some live worker thread executes its next statement.
\<close>

datatype 'a action =
    Start_playing 'a
  | Stop_playing
  | Caller
  | Worker nat bool

fun sys_step ::
  "('a \<Rightarrow> 'w option) \<Rightarrow> 'a action \<Rightarrow> ('a, 'w) player \<Rightarrow> ('a, 'w) player option"
where
  "sys_step from_wave_file (Start_playing wav_data) p =
     (if caller p = Outside then Some (enter_start_playing wav_data p) else None)"
| "sys_step from_wave_file Stop_playing p =
     (if caller p = Outside then Some (enter_stop_playing p) else None)"
| "sys_step from_wave_file Caller p = caller_step p"
| "sys_step from_wave_file (Worker t playing) p = worker_step from_wave_file t playing p"

text \<open>A schedule is a list of actions; it is refused (\<open>None\<close>) when one of them has no step.\<close>

fun run_sys ::
  "('a \<Rightarrow> 'w option) \<Rightarrow> 'a action list \<Rightarrow> ('a, 'w) player \<Rightarrow> ('a, 'w) player option"
where
  "run_sys from_wave_file [] p = Some p"
| "run_sys from_wave_file (a # as) p =
     (case sys_step from_wave_file a p of
        None \<Rightarrow> None
      | Some p' \<Rightarrow> run_sys from_wave_file as p')"

text \<open>The number of threads of the table that are alive.\<close>

definition live_workers :: "('a, 'w) player \<Rightarrow> nat" where
  "live_workers p = length (filter is_alive (threads p))"

subsection \<open>The two methods as seen by their caller\<close>

text \<open>
  While the caller waits in \<^verbatim>\<open>join\<close> (line 59) the flag is set and nothing but the
  joined thread runs, so the thread's remaining statements are a function of the queue,
  of the sounding objects and of its position: the inner loop of line 42 is left as
  soon as the flag is set, whatever \<^verbatim>\<open>is_playing()\<close> answers. The answer is taken to be
  yes, the case in which the sound is still on and line 46 has to silence it; from a
  state that can be reached, any other answers end in the same state (lemma
  \<open>stop_playing_any_answers\<close>). \<open>join_thread\<close> executes the statements until the
  thread is no longer alive; that it is a total function says that \<^verbatim>\<open>join\<close> returns.
\<close>

fun join_measure :: "'a list \<Rightarrow> ('a, 'w) worker \<Rightarrow> nat" where
  "join_measure q At_while = 5 * length q + 1"
| "join_measure q At_get = (if q = [] then 2 else 5 * length q)"
| "join_measure q (At_from_wave_file wav_data) = 5 * length q + 4"
| "join_measure q (At_is_playing play_obj) = 5 * length q + 3"
| "join_measure q (At_stop_check play_obj) = 5 * length q + 2"
| "join_measure q Returned = 0"
| "join_measure q Raised = 0"

function join_thread ::
  "('a \<Rightarrow> 'w option) \<Rightarrow> 'a list \<Rightarrow> 'w list \<Rightarrow> ('a, 'w) worker
   \<Rightarrow> 'a list \<times> 'w list \<times> ('a, 'w) worker"
where
  "join_thread from_wave_file q s w =
     (if is_alive w then
        (case play_audio_step from_wave_file True True q s w of
           (q', s', w') \<Rightarrow> join_thread from_wave_file q' s' w')
      else (q, s, w))"
  by pat_completeness auto
termination
  apply (relation "measure (\<lambda>(d, q, s, w). join_measure q w)")
   apply simp
  subgoal for d q s w
    by (cases w) (auto split: list.splits option.splits if_splits)
  done

declare join_thread.simps [simp del]

text \<open>
  \<^verbatim>\<open>stop_playing\<close> (lines 56 to 60) from call to return: nothing happens unless the
  thread is alive; otherwise the flag is set, the thread is joined and the handle is
  cleared.
\<close>

definition stop_playing ::
  "('a \<Rightarrow> 'w option) \<Rightarrow> ('a, 'w) player \<Rightarrow> ('a, 'w) player"
where
  "stop_playing from_wave_file p =
     (case play_thread p of
        None \<Rightarrow> p
      | Some t \<Rightarrow>
          if t < length (threads p) \<and> is_alive (threads p ! t) then
            (case join_thread from_wave_file (queue p) (sounding p) (threads p ! t) of
               (q, s, w) \<Rightarrow>
                 p\<lparr>stop_flag := True, queue := q, sounding := s,
                   threads := (threads p)[t := w], play_thread := None\<rparr>)
          else p)"

text \<open>\<^verbatim>\<open>start_playing\<close> (lines 48 to 54) from call to return.\<close>

definition start_playing :: "'a \<Rightarrow> ('a, 'w) player \<Rightarrow> ('a, 'w) player" where
  "start_playing wav_data p =
     (let p1 = p\<lparr>stop_flag := False\<rparr>;
          p2 = p1\<lparr>queue := queue p1 @ [wav_data]\<rparr>
      in if thread_alive p2 then p2
         else p2\<lparr>threads := threads p2 @ [At_while], play_thread := Some (length (threads p2))\<rparr>)"

text \<open>
  The buffers that \<^verbatim>\<open>from_wave_file\<close> has not seen yet: the one a thread holds between
  lines 35 and 39, and the queue.
\<close>

fun held :: "('a, 'w) worker \<Rightarrow> 'a list" where
  "held (At_from_wave_file wav_data) = [wav_data]"
| "held _ = []"

definition undecoded :: "('a, 'w) player \<Rightarrow> 'a list" where
  "undecoded p = concat (map held (threads p)) @ queue p"

text \<open>
  What every state reached from \<open>init_player\<close> satisfies: the handle names a thread of
  the table; a thread the handle does not name is not alive; the flag is set while a
  thread is alive only during \<^verbatim>\<open>join\<close>; a thread that left its loop did so during
  \<^verbatim>\<open>stop_playing\<close>, with the queue empty.
\<close>

definition player_inv :: "('a, 'w) player \<Rightarrow> bool" where
  "player_inv p \<longleftrightarrow>
     (\<forall>t. play_thread p = Some t \<longrightarrow> t < length (threads p)) \<and>
     (\<forall>t < length (threads p). play_thread p \<noteq> Some t \<longrightarrow> \<not> is_alive (threads p ! t)) \<and>
     (caller p = Stop_clear \<longrightarrow> play_thread p \<noteq> None \<and> \<not> thread_alive p) \<and>
     (caller p = Stop_set \<or> caller p = Stop_join \<longrightarrow> play_thread p \<noteq> None) \<and>
     (stop_flag p \<and> thread_alive p \<longrightarrow> caller p = Stop_join) \<and>
     ((caller p = Start_spawn \<or> (\<exists>x. caller p = Start_put x)) \<longrightarrow> \<not> stop_flag p) \<and>
     (\<forall>t. play_thread p = Some t \<longrightarrow> threads p ! t = Returned \<longrightarrow>
        (caller p = Stop_join \<or> caller p = Stop_clear) \<and> queue p = [])"

text \<open>
  What every state reached from \<open>init_player\<close> satisfies as well: nothing sounds but
  the one play object that the thread named by the handle holds, in the inner loop of
  line 42 or, with the flag set, before the check of line 45.
\<close>

definition sound_inv :: "('a, 'w) player \<Rightarrow> bool" where
  "sound_inv p \<longleftrightarrow>
     sounding p = [] \<or>
     (\<exists>t play_obj. play_thread p = Some t \<and> sounding p = [play_obj] \<and>
        (threads p ! t = At_is_playing play_obj \<or>
         threads p ! t = At_stop_check play_obj \<and> stop_flag p))"

text \<open>
  The same for one thread: nothing sounds but the play object the thread holds.
\<close>

definition holds_sound :: "'w list \<Rightarrow> ('a, 'w) worker \<Rightarrow> bool" where
  "holds_sound s w \<longleftrightarrow>
     s = [] \<or> (\<exists>play_obj. s = [play_obj] \<and> (w = At_is_playing play_obj \<or> w = At_stop_check play_obj))"

section \<open>The dispatcher: \<^verbatim>\<open>receive_message\<close>\<close>

text \<open>What the dispatcher acts on: the player and the text written to the console so far.\<close>

record ('a, 'w) world =
  audio_player :: "('a, 'w) player"
  console :: string

text \<open>\<^verbatim>\<open>print(text, end=e, flush=True)\<close>\<close>

definition print_end :: "string \<Rightarrow> string \<Rightarrow> ('a, 'w) world \<Rightarrow> ('a, 'w) world" where
  "print_end text e w = w\<lparr>console := console w @ text @ e\<rparr>"

text \<open>
  What \<^verbatim>\<open>websocket.recv()\<close> returns: a \<^verbatim>\<open>str\<close>, \<^verbatim>\<open>bytes\<close>, or (the last
  \<^verbatim>\<open>else\<close> of line 141) anything else.
\<close>

datatype 'b message = Str string | Bytes 'b | Unexpected

text \<open>How one pass through the loop body ends.\<close>

datatype flow = Continue | Break | Raise

text \<open>
  Lines 124 to 143 make at most two calls for a message, one after the other: a
  \<^verbatim>\<open>print\<close>, \<^verbatim>\<open>audio_player.stop_playing()\<close> or \<^verbatim>\<open>audio_player.start_playing(wav_data)\<close>.
\<close>

datatype 'a call =
    Call_print string string
  | Call_stop_playing
  | Call_start_playing 'a

text \<open>What one call does, from the call to its return.\<close>

fun do_call :: "('a \<Rightarrow> 'w option) \<Rightarrow> 'a call \<Rightarrow> ('a, 'w) world \<Rightarrow> ('a, 'w) world" where
  "do_call from_wave_file (Call_print text e) w = print_end text e w"
| "do_call from_wave_file Call_stop_playing w =
     w\<lparr>audio_player := stop_playing from_wave_file (audio_player w)\<rparr>"
| "do_call from_wave_file (Call_start_playing wav_data) w =
     w\<lparr>audio_player := start_playing wav_data (audio_player w)\<rparr>"

text \<open>
  The calls are made in the order of the list, each in the world in which the one before
  returned. The result lists the worlds in which the calls return, in that order.
\<close>

fun do_calls ::
  "('a \<Rightarrow> 'w option) \<Rightarrow> 'a call list \<Rightarrow> ('a, 'w) world \<Rightarrow> ('a, 'w) world list"
where
  "do_calls from_wave_file [] w = []"
| "do_calls from_wave_file (c # cs) w =
     do_call from_wave_file c w # do_calls from_wave_file cs (do_call from_wave_file c w)"

text \<open>
  Lines 124 to 143: the calls that one pass through the loop body makes, in the order of
  the source, and how the pass ends. \<open>from_mp3\<close> stands for the transcoding of lines 135
  to 138, \<open>None\<close> when it raises; nothing catches that exception, so it leaves
  \<^verbatim>\<open>receive_message\<close>.
\<close>

fun receive_message_calls :: "('b \<Rightarrow> 'a option) \<Rightarrow> 'b message \<Rightarrow> 'a call list \<times> flow" where
  "receive_message_calls from_mp3 (Str message) =
     (if message = ''[end]\<newline>'' then ([Call_print ''\<newline>You: '' ''''], Continue)
      else if prefix ''[+]'' message then
        ([Call_stop_playing, Call_print message ''\<newline>''], Continue)
      else ([Call_print message ''''], Continue))"
| "receive_message_calls from_mp3 (Bytes message) =
     (case from_mp3 message of
        None \<Rightarrow> ([], Raise)
      | Some wav_data \<Rightarrow> ([Call_start_playing wav_data], Continue))"
| "receive_message_calls from_mp3 Unexpected =
     ([Call_print ''Unexpected message'' ''\<newline>''], Break)"

text \<open>
  One pass through the loop body: its calls are made, one after the other, and the pass
  ends in the world in which the last of them returned (the world it began in, if it
  made none).
\<close>

definition receive_message_body ::
  "('a \<Rightarrow> 'w option) \<Rightarrow> ('b \<Rightarrow> 'a option) \<Rightarrow> 'b message \<Rightarrow> ('a, 'w) world
   \<Rightarrow> ('a, 'w) world \<times> flow"
where
  "receive_message_body from_wave_file from_mp3 message w =
     (case receive_message_calls from_mp3 message of
        (calls, f) \<Rightarrow> (last (w # do_calls from_wave_file calls w), f))"




section \<open>The session: \<^verbatim>\<open>start_client\<close>\<close>

text \<open>
  \<^verbatim>\<open>str.lower()\<close> on the code points below 256: the letters A to Z and the capital
  letters of Latin-1 (all of 192 to 222 but the multiplication sign 215) move up by 32.
\<close>

definition lower_char :: "char \<Rightarrow> char" where
  "lower_char c =
     (let n = (of_char c :: nat)
      in if (65 \<le> n \<and> n \<le> 90) \<or> (192 \<le> n \<and> n \<le> 222 \<and> n \<noteq> 215)
         then char_of (n + 32) else c)"

definition lower :: "string \<Rightarrow> string" where
  "lower s = map lower_char s"

text \<open>The coroutines that \<^verbatim>\<open>start_client\<close> wraps into tasks.\<close>

datatype 'd coroutine = Handle_audio 'd | Handle_text | Receive_message

fun is_producer :: "'d coroutine \<Rightarrow> bool" where
  "is_producer (Handle_audio device_id) = True"
| "is_producer Handle_text = True"
| "is_producer Receive_message = False"

text \<open>
  Lines 155 to 162: the tasks created, in the order of creation. \<open>device\<close> is what
  \<^verbatim>\<open>get_input_device_id()\<close> returns, \<open>None\<close> when it raises (\<^verbatim>\<open>int\<close> of a line that is
  not a number); it is only called in audio mode, and its exception leaves
  \<^verbatim>\<open>start_client\<close> before any task exists.
\<close>

definition create_tasks :: "string \<Rightarrow> 'd option \<Rightarrow> 'd coroutine list option" where
  "create_tasks mode device =
     (if lower mode = ''a'' then
        (case device of
           None \<Rightarrow> None
         | Some device_id \<Rightarrow> Some [Handle_audio device_id, Receive_message])
      else Some [Handle_text, Receive_message])"







section \<open>Lemmas about the player\<close>

subsection \<open>The invariant holds in every state that can be reached\<close>

lemma inv_init: "player_inv init_player"
  by (simp add: player_inv_def init_player_def thread_alive_def)

lemma thread_alive_upd [simp]:
  "thread_alive (p\<lparr>caller := c\<rparr>) = thread_alive p"
  "thread_alive (p\<lparr>stop_flag := f\<rparr>) = thread_alive p"
  "thread_alive (p\<lparr>queue := q\<rparr>) = thread_alive p"
  "thread_alive (p\<lparr>sounding := s\<rparr>) = thread_alive p"
  by (simp_all add: thread_alive_def split: option.splits)

lemma inv_enter_start:
  "player_inv p \<Longrightarrow> caller p = Outside \<Longrightarrow> player_inv (enter_start_playing x p)"
  unfolding player_inv_def enter_start_playing_def by simp

lemma inv_enter_stop:
  "player_inv p \<Longrightarrow> caller p = Outside \<Longrightarrow> player_inv (enter_stop_playing p)"
  unfolding player_inv_def enter_stop_playing_def by (auto simp: thread_alive_def split: option.splits)

lemma inv_caller:
  "player_inv p \<Longrightarrow> caller_step p = Some p' \<Longrightarrow> player_inv p'"
  apply (cases "caller p")
  apply (auto simp: player_inv_def caller_step_def thread_alive_def nth_append split: option.splits if_splits)
  apply (metis less_SucE)
  done

lemma play_audio_step_alive:
  "play_audio_step d b f q s w = (q', s', w') \<Longrightarrow> is_alive w' \<Longrightarrow> is_alive w"
  by (cases w) (auto split: if_splits list.splits option.splits)

lemma play_audio_step_returned:
  "play_audio_step d b f q s w = (q', s', Returned) \<Longrightarrow> is_alive w \<Longrightarrow> f \<and> q' = []"
  by (cases w) (auto split: if_splits list.splits option.splits)

lemma inv_worker:
  assumes inv: "player_inv p" and step: "worker_step d t b p = Some p'"
  shows "player_inv p'"
proof -
  from step obtain q s w where
    t: "t < length (threads p)" "is_alive (threads p ! t)" and
    st: "play_audio_step d b (stop_flag p) (queue p) (sounding p) (threads p ! t) = (q, s, w)" and
    p': "p' = p\<lparr>queue := q, sounding := s, threads := (threads p)[t := w]\<rparr>"
    by (auto simp: worker_step_def split: if_splits prod.splits)
  from inv t have pt: "play_thread p = Some t" unfolding player_inv_def by blast
  with t have alive: "thread_alive p" by (simp add: thread_alive_def)
  have r: "w = Returned \<Longrightarrow> stop_flag p \<and> q = []"
    using play_audio_step_returned st t(2) by fastforce
  from inv alive have c1: "caller p \<noteq> Stop_clear" and c2: "stop_flag p \<Longrightarrow> caller p = Stop_join"
    unfolding player_inv_def by blast+
  from inv have others: "\<forall>u < length (threads p). u \<noteq> t \<longrightarrow> \<not> is_alive (threads p ! u)"
    unfolding player_inv_def using pt by simp
  from inv have c4: "caller p = Stop_set \<or> caller p = Stop_join \<longrightarrow> play_thread p \<noteq> None"
    and c6: "(caller p = Start_spawn \<or> (\<exists>x. caller p = Start_put x)) \<longrightarrow> \<not> stop_flag p"
    unfolding player_inv_def by blast+
  have f1: "\<forall>u. play_thread p' = Some u \<longrightarrow> u < length (threads p')"
    using pt t by (simp add: p')
  have f2: "\<forall>u < length (threads p'). play_thread p' \<noteq> Some u \<longrightarrow> \<not> is_alive (threads p' ! u)"
    using others pt by (simp add: p')
  have f3: "caller p' = Stop_clear \<longrightarrow> play_thread p' \<noteq> None \<and> \<not> thread_alive p'"
    using c1 by (simp add: p')
  have f4: "caller p' = Stop_set \<or> caller p' = Stop_join \<longrightarrow> play_thread p' \<noteq> None"
    using c4 by (simp add: p')
  have f5: "stop_flag p' \<and> thread_alive p' \<longrightarrow> caller p' = Stop_join"
    using c2 by (simp add: p')
  have f6: "(caller p' = Start_spawn \<or> (\<exists>x. caller p' = Start_put x)) \<longrightarrow> \<not> stop_flag p'"
    using c6 by (simp add: p')
  have f7: "\<forall>u. play_thread p' = Some u \<longrightarrow> threads p' ! u = Returned \<longrightarrow>
        (caller p' = Stop_join \<or> caller p' = Stop_clear) \<and> queue p' = []"
    using pt t r c2 by (simp add: p')
  show ?thesis
    unfolding player_inv_def using f1 f2 f3 f4 f5 f6 f7 by blast
qed

lemma inv_sys_step:
  assumes "player_inv p" "sys_step d a p = Some p'"
  shows "player_inv p'"
proof (cases a)
  case (Start_playing x)
  with assms show ?thesis by (simp split: if_splits) (metis inv_enter_start)
next
  case Stop_playing
  with assms show ?thesis by (simp split: if_splits) (metis inv_enter_stop)
next
  case Caller
  with assms show ?thesis by (simp add: inv_caller)
next
  case (Worker t b)
  with assms show ?thesis by (simp add: inv_worker)
qed

lemma inv_run_sys: "player_inv p \<Longrightarrow> run_sys d as p = Some p' \<Longrightarrow> player_inv p'"
  by (induction as arbitrary: p) (auto split: option.splits dest: inv_sys_step)

lemma inv_reachable: "run_sys d as init_player = Some p \<Longrightarrow> player_inv p"
  using inv_run_sys inv_init by blast

subsection \<open>What is sounding\<close>

lemma sound_init: "sound_inv init_player"
  by (simp add: sound_inv_def init_player_def)

lemma sound_holder_alive:
  assumes "player_inv p" "sounding p \<noteq> []" "sound_inv p"
  shows "thread_alive p"
proof -
  from assms(2,3) obtain t play_obj where
    t: "play_thread p = Some t" and
    h: "threads p ! t = At_is_playing play_obj \<or> threads p ! t = At_stop_check play_obj"
    unfolding sound_inv_def by blast
  from assms(1) t have "t < length (threads p)" unfolding player_inv_def by blast
  moreover from h have "is_alive (threads p ! t)" by auto
  ultimately show ?thesis using t by (simp add: thread_alive_def)
qed

lemma sound_enter_start:
  assumes "player_inv p" "sound_inv p" "caller p = Outside"
  shows "sound_inv (enter_start_playing x p)"
proof (cases "sounding p = []")
  case True
  then show ?thesis by (simp add: sound_inv_def enter_start_playing_def)
next
  case False
  with assms have alive: "thread_alive p" by (blast intro: sound_holder_alive)
  from assms(1) have "stop_flag p \<and> thread_alive p \<longrightarrow> caller p = Stop_join"
    unfolding player_inv_def by blast
  with alive assms(3) have nf: "\<not> stop_flag p" by auto
  from assms(2) False nf obtain t play_obj where
    "play_thread p = Some t" "sounding p = [play_obj]" "threads p ! t = At_is_playing play_obj"
    unfolding sound_inv_def by blast
  then show ?thesis by (simp add: sound_inv_def enter_start_playing_def)
qed

lemma sound_enter_stop: "sound_inv p \<Longrightarrow> sound_inv (enter_stop_playing p)"
  by (simp add: sound_inv_def enter_stop_playing_def)

lemma sound_caller:
  assumes "player_inv p" "sound_inv p" "caller_step p = Some p'"
  shows "sound_inv p'"
proof (cases "sounding p = []")
  case True
  with assms(3) have "sounding p' = []"
    by (cases "caller p") (auto simp: caller_step_def split: if_splits)
  then show ?thesis by (simp add: sound_inv_def)
next
  case False
  with assms have alive: "thread_alive p" by (blast intro: sound_holder_alive)
  from assms(2) False obtain t play_obj where
    t: "play_thread p = Some t" "sounding p = [play_obj]"
      "threads p ! t = At_is_playing play_obj \<or>
       threads p ! t = At_stop_check play_obj \<and> stop_flag p"
    unfolding sound_inv_def by blast
  from assms(1) t(1) have len: "t < length (threads p)" unfolding player_inv_def by blast
  from assms(1) have nc: "caller p = Stop_clear \<longrightarrow> \<not> thread_alive p"
    unfolding player_inv_def by blast
  show ?thesis
  proof (cases "caller p")
    case Outside
    with assms(3) show ?thesis by (simp add: caller_step_def)
  next
    case (Start_put x)
    with assms(3) t show ?thesis by (auto simp: caller_step_def sound_inv_def)
  next
    case Start_spawn
    with assms(3) alive t show ?thesis by (auto simp: caller_step_def sound_inv_def)
  next
    case Stop_set
    with assms(3) t show ?thesis by (auto simp: caller_step_def sound_inv_def)
  next
    case Stop_join
    with assms(3) alive show ?thesis by (simp add: caller_step_def)
  next
    case Stop_clear
    with nc alive show ?thesis by simp
  qed
qed

lemma sound_worker:
  assumes inv: "player_inv p" and snd: "sound_inv p" and step: "worker_step d u b p = Some p'"
  shows "sound_inv p'"
proof -
  from step obtain q s w where
    u: "u < length (threads p)" "is_alive (threads p ! u)" and
    st: "play_audio_step d b (stop_flag p) (queue p) (sounding p) (threads p ! u) = (q, s, w)" and
    p': "p' = p\<lparr>queue := q, sounding := s, threads := (threads p)[u := w]\<rparr>"
    by (auto simp: worker_step_def split: if_splits prod.splits)
  from inv u have pt: "play_thread p = Some u" unfolding player_inv_def by blast
  from snd pt have cur: "sounding p = [] \<or>
     (\<exists>play_obj. sounding p = [play_obj] \<and>
        (threads p ! u = At_is_playing play_obj \<or>
         threads p ! u = At_stop_check play_obj \<and> stop_flag p))"
    unfolding sound_inv_def by auto
  have goal: "s = [] \<or>
     (\<exists>play_obj. s = [play_obj] \<and> (w = At_is_playing play_obj \<or> w = At_stop_check play_obj \<and> stop_flag p))"
    using st cur by (cases "threads p ! u") (auto split: if_splits list.splits option.splits)
  then show ?thesis
    unfolding sound_inv_def using pt u(1) by (auto simp: p')
qed

lemma both_sys_step:
  assumes "player_inv p \<and> sound_inv p" "sys_step d a p = Some p'"
  shows "player_inv p' \<and> sound_inv p'"
proof -
  from assms have i: "player_inv p'" by (blast intro: inv_sys_step)
  have "sound_inv p'"
  proof (cases a)
    case (Start_playing x)
    with assms show ?thesis by (auto simp: sound_enter_start split: if_splits)
  next
    case Stop_playing
    with assms show ?thesis by (auto simp: sound_enter_stop split: if_splits)
  next
    case Caller
    with assms show ?thesis by (auto intro: sound_caller)
  next
    case (Worker t b)
    with assms show ?thesis by (auto intro: sound_worker)
  qed
  with i show ?thesis by blast
qed

lemma both_run_sys:
  "player_inv p \<and> sound_inv p \<Longrightarrow> run_sys d as p = Some p' \<Longrightarrow> player_inv p' \<and> sound_inv p'"
proof (induction as arbitrary: p)
  case Nil
  then show ?case by simp
next
  case (Cons a as)
  from Cons.prems(2) obtain p1 where s: "sys_step d a p = Some p1" and r: "run_sys d as p1 = Some p'"
    by (auto split: option.splits)
  from both_sys_step[OF Cons.prems(1) s] have "player_inv p1 \<and> sound_inv p1" .
  from Cons.IH[OF this r] show ?case .
qed

lemma sound_reachable: "run_sys d as init_player = Some p \<Longrightarrow> sound_inv p"
  using both_run_sys[of init_player d as p] inv_init sound_init by blast

lemma silent_without_worker:
  assumes "player_inv p" "sound_inv p" "\<not> thread_alive p"
  shows "sounding p = []"
  using assms sound_holder_alive by blast

subsection \<open>Counting live threads\<close>

lemma filter_none:
  "\<forall>i < length xs. \<not> P (xs ! i) \<Longrightarrow> length (filter P xs) = 0"
  by (simp add: filter_empty_conv all_set_conv_all_nth)

lemma filter_at_most_one:
  "\<forall>i < length xs. i \<noteq> t \<longrightarrow> \<not> P (xs ! i) \<Longrightarrow> length (filter P xs) \<le> 1"
proof (induction xs arbitrary: t)
  case Nil
  then show ?case by simp
next
  case (Cons x xs)
  show ?case
  proof (cases t)
    case 0
    have "\<forall>i < length xs. \<not> P (xs ! i)"
    proof (intro allI impI)
      fix i assume "i < length xs"
      then have "Suc i < length (x # xs)" "Suc i \<noteq> t" using 0 by simp_all
      with Cons.prems have "\<not> P ((x # xs) ! Suc i)" by blast
      then show "\<not> P (xs ! i)" by simp
    qed
    then have "length (filter P xs) = 0" by (rule filter_none)
    then show ?thesis by simp
  next
    case (Suc t')
    have "0 < length (x # xs)" "0 \<noteq> t" using Suc by simp_all
    with Cons.prems have "\<not> P ((x # xs) ! 0)" by blast
    then have nx: "\<not> P x" by simp
    have "\<forall>i < length xs. i \<noteq> t' \<longrightarrow> \<not> P (xs ! i)"
    proof (intro allI impI)
      fix i assume "i < length xs" "i \<noteq> t'"
      then have "Suc i < length (x # xs)" "Suc i \<noteq> t" using Suc by simp_all
      with Cons.prems have "\<not> P ((x # xs) ! Suc i)" by blast
      then show "\<not> P (xs ! i)" by simp
    qed
    then have "length (filter P xs) \<le> 1" by (rule Cons.IH)
    with nx show ?thesis by simp
  qed
qed

lemma inv_live_workers: "player_inv p \<Longrightarrow> live_workers p \<le> 1"
proof -
  assume inv: "player_inv p"
  show ?thesis
  proof (cases "play_thread p")
    case None
    with inv have "\<forall>i < length (threads p). \<not> is_alive (threads p ! i)"
      unfolding player_inv_def by simp
    then show ?thesis unfolding live_workers_def by (simp add: filter_none)
  next
    case (Some t)
    with inv have "\<forall>i < length (threads p). i \<noteq> t \<longrightarrow> \<not> is_alive (threads p ! i)"
      unfolding player_inv_def by simp
    then show ?thesis unfolding live_workers_def by (rule filter_at_most_one)
  qed
qed

lemma inv_not_alive_none:
  "player_inv p \<Longrightarrow> \<not> thread_alive p \<Longrightarrow> live_workers p = 0"
proof -
  assume inv: "player_inv p" and dead: "\<not> thread_alive p"
  have "\<not> is_alive (threads p ! i)" if "i < length (threads p)" for i
  proof (cases "play_thread p = Some i")
    case True
    with dead that show ?thesis by (simp add: thread_alive_def)
  next
    case False
    with inv that show ?thesis unfolding player_inv_def by blast
  qed
  then show ?thesis unfolding live_workers_def by (simp add: filter_none)
qed

lemma spawn_only_when_dead:
  assumes "sys_step d a p = Some p'" "length (threads p) < length (threads p')"
  shows "\<not> thread_alive p"
proof (cases a)
  case (Start_playing x)
  with assms show ?thesis by (simp add: enter_start_playing_def split: if_splits) auto
next
  case Stop_playing
  with assms show ?thesis by (simp add: enter_stop_playing_def split: if_splits) auto
next
  case Caller
  with assms show ?thesis
    by (cases "caller p") (auto simp: caller_step_def split: if_splits)
next
  case (Worker t b)
  with assms show ?thesis
    by (auto simp: worker_step_def split: if_splits prod.splits)
qed

subsection \<open>Joining the thread\<close>

lemma join_thread_dead: "\<not> is_alive (snd (snd (join_thread d q s w)))"
proof (induction d q s w rule: join_thread.induct)
  case (1 d q s w)
  show ?case
  proof (cases "is_alive w")
    case True
    obtain q' s' w' where st: "play_audio_step d True True q s w = (q', s', w')"
      by (cases "play_audio_step d True True q s w") auto
    with True 1 show ?thesis by (simp add: join_thread.simps[of d q s w])
  next
    case False
    then show ?thesis by (simp add: join_thread.simps[of d q s w])
  qed
qed

lemma play_audio_step_decodable:
  assumes "play_audio_step d b f q s w = (q', s', w')"
    "\<forall>x \<in> set (held w @ q). d x \<noteq> None" "is_alive w"
  shows "(\<forall>x \<in> set (held w' @ q'). d x \<noteq> None) \<and> w' \<noteq> Raised"
  using assms by (cases w) (auto split: list.splits option.splits if_splits)

lemma join_thread_returns:
  "\<forall>x \<in> set (held w @ q). d x \<noteq> None \<Longrightarrow> is_alive w \<Longrightarrow>
   \<exists>s'. join_thread d q s w = ([], s', Returned)"
proof (induction d q s w rule: join_thread.induct)
  case (1 d q s w)
  obtain q' s' w' where st: "play_audio_step d True True q s w = (q', s', w')"
    by (cases "play_audio_step d True True q s w") auto
  from play_audio_step_decodable[OF st "1.prems"]
  have dec: "\<forall>x \<in> set (held w' @ q'). d x \<noteq> None" and nr: "w' \<noteq> Raised" by blast+
  have unf: "join_thread d q s w = join_thread d q' s' w'"
    using "1.prems"(2) st by (simp add: join_thread.simps[of d q s w])
  show ?case
  proof (cases "is_alive w'")
    case True
    from "1.IH"[OF "1.prems"(2) st[symmetric] refl dec True] unf show ?thesis by simp
  next
    case False
    with nr have w': "w' = Returned" by (cases w') auto
    with st "1.prems"(2) have "q' = []" using play_audio_step_returned by fastforce
    with w' unf show ?thesis by (simp add: join_thread.simps[of d "[]" s' Returned])
  qed
qed

lemma join_thread_schedule:
  "stop_flag p \<Longrightarrow> t < length (threads p) \<Longrightarrow> threads p ! t = w \<Longrightarrow> queue p = q \<Longrightarrow>
   sounding p = s \<Longrightarrow> join_thread d q s w = (q', s', w') \<Longrightarrow>
   \<exists>bs. run_sys d (map (Worker t) bs) p =
          Some (p\<lparr>queue := q', sounding := s', threads := (threads p)[t := w']\<rparr>)"
proof (induction d q s w arbitrary: p rule: join_thread.induct)
  case (1 d q s w)
  show ?case
  proof (cases "is_alive w")
    case False
    with "1.prems" have "q' = queue p" "s' = sounding p" "w' = threads p ! t"
      by (simp_all add: join_thread.simps[of d q s w])
    then have "p\<lparr>queue := q', sounding := s', threads := (threads p)[t := w']\<rparr> = p" by simp
    then have "run_sys d (map (Worker t) []) p =
        Some (p\<lparr>queue := q', sounding := s', threads := (threads p)[t := w']\<rparr>)"
      by simp
    then show ?thesis by blast
  next
    case True
    obtain q1 s1 w1 where st: "play_audio_step d True True q s w = (q1, s1, w1)"
      by (cases "play_audio_step d True True q s w") auto
    define p1 where "p1 = p\<lparr>queue := q1, sounding := s1, threads := (threads p)[t := w1]\<rparr>"
    have step: "worker_step d t True p = Some p1"
      using "1.prems" True st by (simp add: worker_step_def p1_def)
    have unf: "join_thread d q1 s1 w1 = (q', s', w')"
      using True st "1.prems"(6) by (simp add: join_thread.simps[of d q s w])
    have "\<exists>bs. run_sys d (map (Worker t) bs) p1 =
            Some (p1\<lparr>queue := q', sounding := s', threads := (threads p1)[t := w']\<rparr>)"
      using "1.prems" by (intro "1.IH"[OF True st[symmetric] refl _ _ _ _ _ unf]) (simp_all add: p1_def)
    then obtain bs where bs: "run_sys d (map (Worker t) bs) p1 =
            Some (p1\<lparr>queue := q', sounding := s', threads := (threads p1)[t := w']\<rparr>)" by blast
    have "p1\<lparr>queue := q', sounding := s', threads := (threads p1)[t := w']\<rparr> =
          p\<lparr>queue := q', sounding := s', threads := (threads p)[t := w']\<rparr>"
      by (simp add: p1_def)
    with bs step have "run_sys d (map (Worker t) (True # bs)) p =
          Some (p\<lparr>queue := q', sounding := s', threads := (threads p)[t := w']\<rparr>)" by simp
    then show ?thesis by blast
  qed
qed

lemma run_sys_append:
  "run_sys d (xs @ ys) p = (case run_sys d xs p of None \<Rightarrow> None | Some p' \<Rightarrow> run_sys d ys p')"
  by (induction xs arbitrary: p) (auto split: option.splits)

lemma stop_playing_schedule:
  assumes "caller p = Outside" "play_thread p = Some t" "thread_alive p"
  shows "\<exists>bs. run_sys d ([Stop_playing, Caller] @ map (Worker t) bs @ [Caller, Caller]) p =
              Some (stop_playing d p)"
proof -
  from assms have t: "t < length (threads p)" "is_alive (threads p ! t)"
    by (simp_all add: thread_alive_def)
  obtain q s w where j: "join_thread d (queue p) (sounding p) (threads p ! t) = (q, s, w)"
    by (cases "join_thread d (queue p) (sounding p) (threads p ! t)") auto
  from join_thread_dead[of d "queue p" "sounding p" "threads p ! t"] j
  have dead: "\<not> is_alive w" by simp
  define p2 where "p2 = p\<lparr>caller := Stop_join, stop_flag := True\<rparr>"
  define p3 where "p3 = p2\<lparr>queue := q, sounding := s, threads := (threads p2)[t := w]\<rparr>"
  have s12: "run_sys d [Stop_playing, Caller] p = Some p2"
    using assms by (simp add: enter_stop_playing_def caller_step_def p2_def)
  have "\<exists>bs. run_sys d (map (Worker t) bs) p2 = Some p3"
    unfolding p3_def using t j
    by (intro join_thread_schedule[where w = "threads p ! t" and q = "queue p" and s = "sounding p"])
       (simp_all add: p2_def)
  then obtain bs where bs: "run_sys d (map (Worker t) bs) p2 = Some p3" by blast
  have nal: "\<not> thread_alive p3"
    using assms t dead by (simp add: thread_alive_def p3_def p2_def)
  have s34: "run_sys d [Caller, Caller] p3 = Some (stop_playing d p)"
    using nal assms t j by (simp add: caller_step_def stop_playing_def p3_def p2_def)
  from s12 bs s34 have
    "run_sys d ([Stop_playing, Caller] @ map (Worker t) bs @ [Caller, Caller]) p =
       Some (stop_playing d p)"
    by (simp only: run_sys_append option.case)
  then show ?thesis by blast
qed

lemma start_playing_schedule:
  "caller p = Outside \<Longrightarrow>
   run_sys d [Start_playing wav_data, Caller, Caller] p = Some (start_playing wav_data p)"
  by (simp add: enter_start_playing_def caller_step_def start_playing_def Let_def thread_alive_def
           split: option.splits)

lemma held_subset_undecoded:
  "t < length (threads p) \<Longrightarrow> set (held (threads p ! t) @ queue p) \<subseteq> set (undecoded p)"
  by (auto simp: undecoded_def) (metis nth_mem)

lemma stop_playing_alive:
  assumes "play_thread p = Some t" "t < length (threads p)" "is_alive (threads p ! t)"
    "join_thread d (queue p) (sounding p) (threads p ! t) = (q, s, w)"
  shows "stop_playing d p =
           p\<lparr>stop_flag := True, queue := q, sounding := s, threads := (threads p)[t := w],
             play_thread := None\<rparr>"
  using assms by (simp add: stop_playing_def)

lemma stop_playing_dead: "\<not> thread_alive p \<Longrightarrow> stop_playing d p = p"
  by (auto simp: stop_playing_def thread_alive_def split: option.splits)

lemma stop_playing_no_workers:
  assumes inv: "player_inv p"
  shows "live_workers (stop_playing d p) = 0"
proof (cases "thread_alive p")
  case False
  with inv show ?thesis by (simp add: stop_playing_dead inv_not_alive_none)
next
  case True
  then obtain t where t: "play_thread p = Some t" "t < length (threads p)" "is_alive (threads p ! t)"
    by (auto simp: thread_alive_def split: option.splits)
  obtain q s w where j: "join_thread d (queue p) (sounding p) (threads p ! t) = (q, s, w)"
    by (cases "join_thread d (queue p) (sounding p) (threads p ! t)") auto
  from join_thread_dead[of d "queue p" "sounding p" "threads p ! t"] j
  have dead: "\<not> is_alive w" by simp
  from inv t have others: "\<forall>i < length (threads p). i \<noteq> t \<longrightarrow> \<not> is_alive (threads p ! i)"
    unfolding player_inv_def by simp
  have "\<forall>i < length ((threads p)[t := w]). \<not> is_alive ((threads p)[t := w] ! i)"
    using others dead t(2) by (simp add: nth_list_update)
  then have "length (filter is_alive ((threads p)[t := w])) = 0" by (rule filter_none)
  then show ?thesis by (simp add: stop_playing_alive[OF t j] live_workers_def)
qed

lemma stop_playing_reachable:
  assumes "run_sys d acts init_player = Some p" "caller p = Outside"
  shows "\<exists>acts'. run_sys d acts' init_player = Some (stop_playing d p)"
proof (cases "thread_alive p")
  case False
  with assms(1) show ?thesis by (auto simp: stop_playing_dead)
next
  case True
  then obtain t where t: "play_thread p = Some t"
    by (auto simp: thread_alive_def split: option.splits)
  from stop_playing_schedule[OF assms(2) t True, of d] obtain bs where
    "run_sys d ([Stop_playing, Caller] @ map (Worker t) bs @ [Caller, Caller]) p =
       Some (stop_playing d p)" by blast
  with assms(1) have
    "run_sys d (acts @ [Stop_playing, Caller] @ map (Worker t) bs @ [Caller, Caller]) init_player =
       Some (stop_playing d p)"
    by (simp only: run_sys_append[of d acts] option.case)
  then show ?thesis by blast
qed

lemma stop_playing_not_alive:
  assumes "player_inv p"
  shows "\<not> thread_alive (stop_playing d p)"
proof (cases "thread_alive p")
  case False
  then show ?thesis by (simp add: stop_playing_dead)
next
  case True
  then obtain t where t: "play_thread p = Some t" "t < length (threads p)" "is_alive (threads p ! t)"
    by (auto simp: thread_alive_def split: option.splits)
  obtain q s w where j: "join_thread d (queue p) (sounding p) (threads p ! t) = (q, s, w)"
    by (cases "join_thread d (queue p) (sounding p) (threads p ! t)") auto
  show ?thesis by (simp add: stop_playing_alive[OF t j] thread_alive_def)
qed

lemma stop_playing_silent:
  assumes "run_sys d acts init_player = Some p" "caller p = Outside"
  shows "sounding (stop_playing d p) = []"
proof -
  from stop_playing_reachable[OF assms] obtain acts' where
    r: "run_sys d acts' init_player = Some (stop_playing d p)" by blast
  from r have "player_inv (stop_playing d p)" by (rule inv_reachable)
  moreover from r have "sound_inv (stop_playing d p)" by (rule sound_reachable)
  moreover from assms(1) have "\<not> thread_alive (stop_playing d p)"
    by (intro stop_playing_not_alive inv_reachable)
  ultimately show ?thesis by (rule silent_without_worker)
qed

lemma no_worker_no_step:
  assumes "live_workers p = 0"
  shows "worker_step d t b p = None"
proof -
  from assms have "filter is_alive (threads p) = []" by (simp add: live_workers_def)
  then have "\<forall>w \<in> set (threads p). \<not> is_alive w" by (simp add: filter_empty_conv)
  then have "t < length (threads p) \<longrightarrow> \<not> is_alive (threads p ! t)" by simp
  then show ?thesis by (auto simp: worker_step_def)
qed

subsection \<open>The answers of \<^verbatim>\<open>is_playing()\<close> during \<^verbatim>\<open>join\<close> do not matter\<close>

lemma join_thread_step:
  assumes "holds_sound s w" "is_alive w" "play_audio_step d b True q s w = (q1, s1, w1)"
  shows "holds_sound s1 w1 \<and> join_thread d q1 s1 w1 = join_thread d q s w"
proof (cases b)
  case True
  with assms(2,3) have j: "join_thread d q1 s1 w1 = join_thread d q s w"
    by (simp add: join_thread.simps[of d q s w])
  from assms have "holds_sound s1 w1"
    by (cases w) (auto simp: holds_sound_def split: if_splits list.splits option.splits)
  with j show ?thesis by simp
next
  case False
  show ?thesis
  proof (cases w)
    case (At_is_playing play_obj)
    with assms(1) have s: "s = [] \<or> s = [play_obj]" by (auto simp: holds_sound_def)
    from At_is_playing False assms(3)
    have e: "q1 = q" "s1 = remove1 play_obj s" "w1 = At_stop_check play_obj" by auto
    from s have s1: "s1 = []" unfolding e by auto
    have "join_thread d q s w = join_thread d q s (At_stop_check play_obj)"
      unfolding At_is_playing
      by (simp add: join_thread.simps[of d q s "At_is_playing play_obj"])
    also have "\<dots> = join_thread d q [] At_while"
      using s by (auto simp: join_thread.simps[of d q s "At_stop_check play_obj"])
    finally have l: "join_thread d q s w = join_thread d q [] At_while" .
    have r: "join_thread d q1 s1 w1 = join_thread d q [] At_while"
      unfolding e(1,3) s1 by (simp add: join_thread.simps[of d q "[]" "At_stop_check play_obj"])
    from l r s1 show ?thesis by (simp add: holds_sound_def)
  next
    case At_while
    with assms(3) have "play_audio_step d True True q s w = (q1, s1, w1)" by simp
    with assms(2) have j: "join_thread d q1 s1 w1 = join_thread d q s w"
      by (simp add: join_thread.simps[of d q s w])
    from assms At_while have "holds_sound s1 w1"
      by (auto simp: holds_sound_def split: if_splits)
    with j show ?thesis by simp
  next
    case At_get
    with assms(3) have "play_audio_step d True True q s w = (q1, s1, w1)" by simp
    with assms(2) have j: "join_thread d q1 s1 w1 = join_thread d q s w"
      by (simp add: join_thread.simps[of d q s w])
    from assms At_get have "holds_sound s1 w1"
      by (auto simp: holds_sound_def split: list.splits)
    with j show ?thesis by simp
  next
    case (At_from_wave_file x)
    with assms(3) have "play_audio_step d True True q s w = (q1, s1, w1)" by simp
    with assms(2) have j: "join_thread d q1 s1 w1 = join_thread d q s w"
      by (simp add: join_thread.simps[of d q s w])
    from assms At_from_wave_file have "holds_sound s1 w1"
      by (auto simp: holds_sound_def split: option.splits)
    with j show ?thesis by simp
  next
    case (At_stop_check play_obj)
    with assms(3) have "play_audio_step d True True q s w = (q1, s1, w1)" by simp
    with assms(2) have j: "join_thread d q1 s1 w1 = join_thread d q s w"
      by (simp add: join_thread.simps[of d q s w])
    from assms At_stop_check have "holds_sound s1 w1"
      by (auto simp: holds_sound_def)
    with j show ?thesis by simp
  next
    case Returned
    with assms(2) show ?thesis by simp
  next
    case Raised
    with assms(2) show ?thesis by simp
  qed
qed

lemma join_thread_any_answers:
  "stop_flag p \<Longrightarrow> t < length (threads p) \<Longrightarrow> holds_sound (sounding p) (threads p ! t) \<Longrightarrow>
   run_sys d (map (Worker t) bs) p = Some p' \<Longrightarrow> \<not> is_alive (threads p' ! t) \<Longrightarrow>
   join_thread d (queue p) (sounding p) (threads p ! t) = (q', s', w') \<Longrightarrow>
   p' = p\<lparr>queue := q', sounding := s', threads := (threads p)[t := w']\<rparr>"
proof (induction bs arbitrary: p)
  case Nil
  then have "p' = p" "\<not> is_alive (threads p ! t)" by simp_all
  with Nil.prems(6) have "q' = queue p" "s' = sounding p" "w' = threads p ! t"
    by (simp_all add: join_thread.simps[of d "queue p" "sounding p" "threads p ! t"])
  then have "p\<lparr>queue := q', sounding := s', threads := (threads p)[t := w']\<rparr> = p" by simp
  with \<open>p' = p\<close> show ?case by simp
next
  case (Cons b bs)
  from Cons.prems(4) obtain p1 where
    step: "worker_step d t b p = Some p1" and rest: "run_sys d (map (Worker t) bs) p1 = Some p'"
    by (auto split: option.splits)
  from step Cons.prems(1) obtain q1 s1 w1 where
    alive: "is_alive (threads p ! t)" and
    st: "play_audio_step d b True (queue p) (sounding p) (threads p ! t) = (q1, s1, w1)" and
    p1: "p1 = p\<lparr>queue := q1, sounding := s1, threads := (threads p)[t := w1]\<rparr>"
    by (auto simp: worker_step_def split: if_splits prod.splits)
  from join_thread_step[OF Cons.prems(3) alive st]
  have h: "holds_sound s1 w1" and
    j: "join_thread d q1 s1 w1 = join_thread d (queue p) (sounding p) (threads p ! t)" by blast+
  have "p' = p1\<lparr>queue := q', sounding := s', threads := (threads p1)[t := w']\<rparr>"
    using Cons.prems(1,2,5,6) h j rest
    by (intro Cons.IH) (simp_all add: p1)
  then show ?case by (simp add: p1)
qed

lemma run_sys_append_Some:
  "run_sys d (xs @ ys) p = Some p' \<Longrightarrow>
   \<exists>pm. run_sys d xs p = Some pm \<and> run_sys d ys pm = Some p'"
  by (simp add: run_sys_append split: option.splits)

lemma worker_steps_keep:
  "run_sys d (map (Worker t) bs) p = Some p' \<Longrightarrow>
   play_thread p' = play_thread p \<and> caller p' = caller p \<and> stop_flag p' = stop_flag p \<and>
   length (threads p') = length (threads p)"
proof (induction bs arbitrary: p)
  case Nil
  then show ?case by simp
next
  case (Cons b bs)
  from Cons.prems obtain p1 where
    step: "worker_step d t b p = Some p1" and rest: "run_sys d (map (Worker t) bs) p1 = Some p'"
    by (auto split: option.splits)
  from step have "play_thread p1 = play_thread p \<and> caller p1 = caller p \<and>
      stop_flag p1 = stop_flag p \<and> length (threads p1) = length (threads p)"
    by (auto simp: worker_step_def split: if_splits prod.splits)
  with Cons.IH[OF rest] show ?case by simp
qed

lemma stop_playing_any_answers:
  assumes reach: "run_sys d acts init_player = Some p"
    and out: "caller p = Outside" and pt: "play_thread p = Some t" and alive: "thread_alive p"
    and run: "run_sys d ([Stop_playing, Caller] @ map (Worker t) bs @ [Caller, Caller]) p = Some p'"
  shows "p' = stop_playing d p"
proof -
  from pt alive have t: "t < length (threads p)" "is_alive (threads p ! t)"
    by (simp_all add: thread_alive_def)
  define p2 where "p2 = p\<lparr>caller := Stop_join, stop_flag := True\<rparr>"
  have s12: "run_sys d [Stop_playing, Caller] p = Some p2"
    using out alive by (simp add: enter_stop_playing_def caller_step_def p2_def)
  from run_sys_append_Some[OF run] s12 have "run_sys d (map (Worker t) bs @ [Caller, Caller]) p2 = Some p'"
    by simp
  from run_sys_append_Some[OF this] obtain p3 where
    mid: "run_sys d (map (Worker t) bs) p2 = Some p3" and
    fin: "run_sys d [Caller, Caller] p3 = Some p'" by blast
  from worker_steps_keep[OF mid] have k: "play_thread p3 = Some t" "caller p3 = Stop_join"
    "length (threads p3) = length (threads p)"
    by (simp_all add: p2_def pt)
  from fin k have dead: "\<not> is_alive (threads p3 ! t)"
    using t(1) by (auto simp: caller_step_def thread_alive_def split: if_splits option.splits)
  from reach have "sound_inv p" by (rule sound_reachable)
  with pt have hs: "holds_sound (sounding p2) (threads p2 ! t)"
    by (auto simp: sound_inv_def holds_sound_def p2_def)
  obtain q s w where j: "join_thread d (queue p) (sounding p) (threads p ! t) = (q, s, w)"
    by (cases "join_thread d (queue p) (sounding p) (threads p ! t)") auto
  have p3: "p3 = p2\<lparr>queue := q, sounding := s, threads := (threads p2)[t := w]\<rparr>"
    using hs mid dead j t(1)
    by (intro join_thread_any_answers[where d = d and bs = bs]) (simp_all add: p2_def)
  from fin dead k t(1) have "p' = p3\<lparr>caller := Stop_clear, play_thread := None, caller := Outside\<rparr>"
    by (auto simp: caller_step_def thread_alive_def split: if_splits option.splits)
  then show ?thesis
    using out by (simp add: stop_playing_alive[OF pt t j] p3 p2_def)
qed

subsection \<open>Polling the empty queue\<close>

lemma poll_empty_queue:
  assumes "t < length (threads p)" "queue p = []" "\<not> stop_flag p"
    "threads p ! t = At_while \<or> threads p ! t = At_get"
  shows "\<exists>p'. run_sys d (map (Worker t) bs) p = Some p' \<and> queue p' = [] \<and> \<not> stop_flag p' \<and>
           (threads p' ! t = At_while \<or> threads p' ! t = At_get)"
  using assms
proof (induction bs arbitrary: p)
  case Nil
  then show ?case by simp
next
  case (Cons b bs)
  define w where "w = (if threads p ! t = At_while then At_get else (At_while :: ('a, 'b) worker))"
  define p1 where "p1 = p\<lparr>queue := [], threads := (threads p)[t := w]\<rparr>"
  have step: "worker_step d t b p = Some p1"
    using Cons.prems by (auto simp: worker_step_def p1_def w_def)
  have "\<exists>p'. run_sys d (map (Worker t) bs) p1 = Some p' \<and> queue p' = [] \<and> \<not> stop_flag p' \<and>
           (threads p' ! t = At_while \<or> threads p' ! t = At_get)"
    using Cons.prems by (intro Cons.IH) (auto simp: p1_def w_def)
  with step show ?case by simp
qed

section \<open>Lemmas about the dispatcher and the session\<close>

lemma interrupt_not_turn_end: "prefix ''[+]'' message \<Longrightarrow> message \<noteq> ''[end]\<newline>''"
  by auto



lemma of_char_lower_char:
  "(of_char (lower_char c) :: nat) =
     (let n = (of_char c :: nat)
      in if (65 \<le> n \<and> n \<le> 90) \<or> (192 \<le> n \<and> n \<le> 222 \<and> n \<noteq> 215)
         then n + 32 else n)"
  by (simp add: lower_char_def Let_def)

lemma of_char_small_a: "(of_char (CHR ''a'') :: nat) = 97"
  by simp

lemma of_char_capital_a: "(of_char (CHR ''A'') :: nat) = 65"
  by simp

lemma lower_char_a: "lower_char c = CHR ''a'' \<longleftrightarrow> c = CHR ''a'' \<or> c = CHR ''A''"
proof -
  have "lower_char c = CHR ''a'' \<longleftrightarrow> (of_char (lower_char c) :: nat) = of_char (CHR ''a'')"
    by (simp only: of_char_eq_iff)
  also have "\<dots> \<longleftrightarrow> (of_char c :: nat) = 97 \<or> (of_char c :: nat) = 65"
    unfolding of_char_lower_char of_char_small_a Let_def by presburger
  also have "\<dots> \<longleftrightarrow> (of_char c :: nat) = of_char (CHR ''a'') \<or> (of_char c :: nat) = of_char (CHR ''A'')"
    by (simp only: of_char_small_a of_char_capital_a)
  also have "\<dots> \<longleftrightarrow> c = CHR ''a'' \<or> c = CHR ''A''"
    by (simp only: of_char_eq_iff)
  finally show ?thesis .
qed

lemma lower_a: "lower mode = ''a'' \<longleftrightarrow> mode = ''a'' \<or> mode = ''A''"
proof (cases mode)
  case Nil
  then show ?thesis by (simp add: lower_def)
next
  case (Cons c cs)
  have "lower mode = ''a'' \<longleftrightarrow> lower_char c = CHR ''a'' \<and> cs = []"
    by (simp add: lower_def Cons)
  also have "\<dots> \<longleftrightarrow> (c = CHR ''a'' \<or> c = CHR ''A'') \<and> cs = []"
    by (simp only: lower_char_a)
  also have "\<dots> \<longleftrightarrow> mode = ''a'' \<or> mode = ''A''"
    unfolding Cons by blast
  finally show ?thesis .
qed

section \<open>The claims\<close>

text \<open>
  C1 (as amended). In every state reached by some interleaving of \<^verbatim>\<open>start_playing\<close>
  and \<^verbatim>\<open>stop_playing\<close> calls with the worker's statements, if the caller is outside
  the player and the thread is alive, then \<^verbatim>\<open>stop_playing\<close> returns in a state where
  no thread is alive and the handle is cleared; the queue is empty provided every buffer
  not yet decoded decodes. The returned state is the one reached by the interleaving in
  which the caller sets the flag, the thread runs on its own until it has ended, and
  only then the caller leaves \<^verbatim>\<open>join\<close> and clears the handle.
\<close>

theorem stop_playing_joins_worker:
  assumes "run_sys from_wave_file acts init_player = Some p"
    and "caller p = Outside" and "thread_alive p"
  shows "live_workers (stop_playing from_wave_file p) = 0 \<and>
         play_thread (stop_playing from_wave_file p) = None \<and>
         ((\<forall>x \<in> set (undecoded p). from_wave_file x \<noteq> None) \<longrightarrow>
            queue (stop_playing from_wave_file p) = []) \<and>
         (\<exists>t bs. run_sys from_wave_file
                    ([Stop_playing, Caller] @ map (Worker t) bs @ [Caller, Caller]) p =
                  Some (stop_playing from_wave_file p))"
proof -
  let ?d = from_wave_file
  from assms(1) have inv: "player_inv p" by (rule inv_reachable)
  from assms(3) obtain t where
    t: "play_thread p = Some t" "t < length (threads p)" "is_alive (threads p ! t)"
    by (auto simp: thread_alive_def split: option.splits)
  obtain q s w where j: "join_thread ?d (queue p) (sounding p) (threads p ! t) = (q, s, w)"
    by (cases "join_thread ?d (queue p) (sounding p) (threads p ! t)") auto
  note eq = stop_playing_alive[OF t j]
  have a: "live_workers (stop_playing ?d p) = 0" using inv by (rule stop_playing_no_workers)
  have b: "play_thread (stop_playing ?d p) = None" by (simp add: eq)
  have c: "queue (stop_playing ?d p) = []" if "\<forall>x \<in> set (undecoded p). ?d x \<noteq> None"
  proof -
    from that held_subset_undecoded[OF t(2)]
    have "\<forall>x \<in> set (held (threads p ! t) @ queue p). ?d x \<noteq> None" by blast
    from join_thread_returns[OF this t(3), of "sounding p"] j have "q = []" by auto
    then show ?thesis by (simp add: eq)
  qed
  from stop_playing_schedule[OF assms(2) t(1) assms(3), of ?d]
  have d: "\<exists>t bs. run_sys ?d ([Stop_playing, Caller] @ map (Worker t) bs @ [Caller, Caller]) p =
                  Some (stop_playing ?d p)" by blast
  from a b c d show ?thesis by blast
qed

theorem stop_playing_joins_worker_witness:
  "run_sys (map_of [(1::nat, 1::nat), (2, 2)])
     [Start_playing 1, Caller, Caller, Worker 0 True, Worker 0 True, Worker 0 True,
      Start_playing 2, Caller, Caller] init_player =
   Some \<lparr>play_thread = Some 0, stop_flag = False, queue = [2],
         threads = [At_is_playing 1], caller = Outside, sounding = [1]\<rparr> \<and>
   queue (stop_playing (map_of [(1::nat, 1::nat), (2, 2)])
     \<lparr>play_thread = Some 0, stop_flag = False, queue = [2],
      threads = [At_is_playing (1::nat)], caller = Outside, sounding = [1]\<rparr>) = [] \<and>
   live_workers (stop_playing (map_of [(1::nat, 1::nat), (2, 2)])
     \<lparr>play_thread = Some 0, stop_flag = False, queue = [2],
      threads = [At_is_playing (1::nat)], caller = Outside, sounding = [1]\<rparr>) = 0"
proof -
  let ?d = "map_of [(1::nat, 1::nat), (2, 2)]"
  let ?p = "\<lparr>play_thread = Some 0, stop_flag = False, queue = [2::nat],
      threads = [At_is_playing (1::nat)], caller = Outside, sounding = [1]\<rparr>"
  have h1: "run_sys ?d
     [Start_playing 1, Caller, Caller, Worker 0 True, Worker 0 True, Worker 0 True,
      Start_playing 2, Caller, Caller] init_player = Some ?p"
    by code_simp
  have h2: "caller ?p = Outside" by simp
  have h3: "thread_alive ?p" by (simp add: thread_alive_def)
  have h4: "\<forall>x \<in> set (undecoded ?p). ?d x \<noteq> None" by (simp add: undecoded_def)
  from stop_playing_joins_worker[OF h1 h2 h3] h4 h1 show ?thesis by blast
qed

text \<open>
  C1 as stated fails: buffer 1 is playing, buffer 0 (which does not decode) and buffer 2
  are queued. \<^verbatim>\<open>stop_playing\<close> returns with the thread ended by the exception and
  buffer 2 still in the queue.
\<close>

theorem stop_playing_queue_counterexample:
  "run_sys (map_of [(1::nat, 1::nat), (2, 2)])
     [Start_playing 1, Caller, Caller, Worker 0 True, Worker 0 True, Worker 0 True,
      Start_playing 0, Caller, Caller, Start_playing 2, Caller, Caller] init_player =
   Some \<lparr>play_thread = Some 0, stop_flag = False, queue = [0, 2],
         threads = [At_is_playing 1], caller = Outside, sounding = [1]\<rparr> \<and>
   thread_alive \<lparr>play_thread = Some 0, stop_flag = False, queue = [0, 2::nat],
         threads = [At_is_playing (1::nat)], caller = Outside, sounding = [1]\<rparr> \<and>
   stop_playing (map_of [(1::nat, 1::nat), (2, 2)])
     \<lparr>play_thread = Some 0, stop_flag = False, queue = [0, 2],
      threads = [At_is_playing (1::nat)], caller = Outside, sounding = [1]\<rparr> =
   \<lparr>play_thread = None, stop_flag = True, queue = [2], threads = [Raised], caller = Outside, sounding = []\<rparr> \<and>
   queue \<lparr>play_thread = None, stop_flag = True, queue = [2::nat],
          threads = [Raised :: (nat, nat) worker], caller = Outside :: nat caller, sounding = []\<rparr> \<noteq> []"
  by code_simp

text \<open>
  C3. In every state reached by an interleaving of \<^verbatim>\<open>start_playing\<close> and
  \<^verbatim>\<open>stop_playing\<close> calls with the statements of the worker threads, at most one
  thread is alive; and a step creates a thread only in a state where none is alive.
\<close>

theorem one_worker_at_a_time:
  assumes "run_sys from_wave_file acts init_player = Some p"
  shows "live_workers p \<le> 1 \<and>
         (\<forall>a p'. sys_step from_wave_file a p = Some p' \<longrightarrow>
                 length (threads p) < length (threads p') \<longrightarrow> live_workers p = 0)"
proof -
  from assms have inv: "player_inv p" by (rule inv_reachable)
  then have "live_workers p \<le> 1" by (rule inv_live_workers)
  moreover have "live_workers p = 0"
    if "sys_step from_wave_file a p = Some p'" "length (threads p) < length (threads p')" for a p'
    using inv spawn_only_when_dead[OF that] by (rule inv_not_alive_none)
  ultimately show ?thesis by blast
qed

theorem one_worker_at_a_time_witness:
  "run_sys (map_of [(1::nat, 1::nat), (2, 2)])
     [Start_playing 1, Caller, Caller, Worker 0 True, Worker 0 True, Worker 0 True,
      Stop_playing, Caller, Worker 0 True, Worker 0 True, Worker 0 True, Caller, Caller,
      Start_playing 2, Caller, Caller] init_player =
   Some \<lparr>play_thread = Some 1, stop_flag = False, queue = [2],
         threads = [Returned, At_while], caller = Outside, sounding = []\<rparr> \<and>
   live_workers \<lparr>play_thread = Some 1, stop_flag = False, queue = [2::nat],
         threads = [Returned, At_while :: (nat, nat) worker], caller = Outside, sounding = []\<rparr> \<le> 1"
proof -
  have h: "run_sys (map_of [(1::nat, 1::nat), (2, 2)])
     [Start_playing 1, Caller, Caller, Worker 0 True, Worker 0 True, Worker 0 True,
      Stop_playing, Caller, Worker 0 True, Worker 0 True, Worker 0 True, Caller, Caller,
      Start_playing 2, Caller, Caller] init_player =
   Some \<lparr>play_thread = Some 1, stop_flag = False, queue = [2],
         threads = [Returned, At_while], caller = Outside, sounding = []\<rparr>"
    by code_simp
  from one_worker_at_a_time[OF h] h show ?thesis by blast
qed

text \<open>
  C4 (as amended). A buffer that does not decode ends the worker: from the head of its
  loop the thread takes the buffer off the queue, \<^verbatim>\<open>from_wave_file\<close> raises, and the
  exception leaves \<^verbatim>\<open>play_audio\<close>. The buffers behind it stay in the queue and the
  thread executes nothing more. These are the two ways in which a worker ends, and the
  only ones: a statement of a live thread leaves the thread not alive exactly when
  it is the loop test with the flag set and the queue empty (the thread returns), or
  lines 39 and 40 on a buffer that does not decode (the thread is left by the
  exception, the queue as it was).
\<close>

theorem decode_failure_ends_worker:
  assumes "t < length (threads p)" and "threads p ! t = At_while"
    and "queue p = wav_data # rest" and "from_wave_file wav_data = None"
  shows "run_sys from_wave_file [Worker t b1, Worker t b2, Worker t b3] p =
           Some (p\<lparr>queue := rest, threads := (threads p)[t := Raised]\<rparr>) \<and>
         worker_step from_wave_file t b4 (p\<lparr>queue := rest, threads := (threads p)[t := Raised]\<rparr>) =
           None \<and>
         (\<forall>u b q q'. worker_step from_wave_file u b q = Some q' \<longrightarrow>
            (\<not> is_alive (threads q' ! u) \<longleftrightarrow>
               threads q ! u = At_while \<and> stop_flag q \<and> queue q = [] \<or>
               (\<exists>x. threads q ! u = At_from_wave_file x \<and> from_wave_file x = None)) \<and>
            (threads q ! u = At_while \<and> stop_flag q \<and> queue q = [] \<longrightarrow>
               threads q' ! u = Returned \<and> queue q' = []) \<and>
            (\<forall>x. threads q ! u = At_from_wave_file x \<and> from_wave_file x = None \<longrightarrow>
               threads q' ! u = Raised \<and> queue q' = queue q))"
proof -
  let ?d = from_wave_file
  define p1 where "p1 = p\<lparr>threads := (threads p)[t := At_get]\<rparr>"
  define p2 where "p2 = p\<lparr>queue := rest, threads := (threads p)[t := At_from_wave_file wav_data]\<rparr>"
  define p3 where "p3 = p\<lparr>queue := rest, threads := (threads p)[t := Raised]\<rparr>"
  have s1: "worker_step ?d t b1 p = Some p1"
    using assms by (simp add: worker_step_def p1_def)
  have s2: "worker_step ?d t b2 p1 = Some p2"
    using assms by (simp add: worker_step_def p1_def p2_def)
  have s3: "worker_step ?d t b3 p2 = Some p3"
    using assms by (simp add: worker_step_def p2_def p3_def)
  have s4: "worker_step ?d t b4 p3 = None"
    using assms by (simp add: worker_step_def p3_def)
  from s1 s2 s3 have a: "run_sys ?d [Worker t b1, Worker t b2, Worker t b3] p = Some p3"
    by simp
  have c: "(\<not> is_alive (threads q' ! u) \<longleftrightarrow>
               threads q ! u = At_while \<and> stop_flag q \<and> queue q = [] \<or>
               (\<exists>x. threads q ! u = At_from_wave_file x \<and> ?d x = None)) \<and>
            (threads q ! u = At_while \<and> stop_flag q \<and> queue q = [] \<longrightarrow>
               threads q' ! u = Returned \<and> queue q' = []) \<and>
            (\<forall>x. threads q ! u = At_from_wave_file x \<and> ?d x = None \<longrightarrow>
               threads q' ! u = Raised \<and> queue q' = queue q)"
    if step: "worker_step ?d u b q = Some q'" for u b q q'
  proof -
    from step obtain q1 s1 w1 where
      u: "u < length (threads q)" "is_alive (threads q ! u)" and
      st: "play_audio_step ?d b (stop_flag q) (queue q) (sounding q) (threads q ! u) =
             (q1, s1, w1)" and
      q': "q' = q\<lparr>queue := q1, sounding := s1, threads := (threads q)[u := w1]\<rparr>"
      by (auto simp: worker_step_def split: if_splits prod.splits)
    from u(1) have w1: "threads q' ! u = w1" and q1: "queue q' = q1" by (simp_all add: q')
    obtain w0 where w0: "threads q ! u = w0" by blast
    from st u(2) show ?thesis
      unfolding w1 q1 w0
      by (cases w0) (auto split: if_splits list.splits option.splits)
  qed
  from a s4 c show ?thesis unfolding p3_def by blast
qed

theorem decode_failure_ends_worker_witness:
  "run_sys (map_of [(1::nat, 1::nat), (2, 2)])
     [Worker 0 True, Worker 0 True, Worker 0 True]
     \<lparr>play_thread = Some 0, stop_flag = False, queue = [0, 2],
      threads = [At_while :: (nat, nat) worker], caller = Outside, sounding = []\<rparr> =
   Some \<lparr>play_thread = Some 0, stop_flag = False, queue = [2], threads = [Raised],
         caller = Outside, sounding = []\<rparr>"
proof -
  let ?d = "map_of [(1::nat, 1::nat), (2, 2)]"
  let ?p = "\<lparr>play_thread = Some 0, stop_flag = False, queue = [0, 2::nat],
      threads = [At_while :: (nat, nat) worker], caller = Outside :: nat caller, sounding = []\<rparr>"
  have "0 < length (threads ?p)" "threads ?p ! 0 = At_while" "queue ?p = 0 # [2]" "?d 0 = None"
    by simp_all
  with decode_failure_ends_worker[where t = 0 and p = ?p and from_wave_file = ?d
      and wav_data = 0 and rest = "[2]" and ?b1.0 = True and ?b2.0 = True and ?b3.0 = True]
  show ?thesis by simp
qed

text \<open>
  C4 as stated fails: with buffer 0 (which does not decode) and buffer 2 queued, the
  worker ends at buffer 0, is not alive, and buffer 2 is still in the queue.
\<close>

theorem decode_failure_counterexample:
  "run_sys (map_of [(1::nat, 1::nat), (2, 2)])
     [Start_playing 0, Caller, Caller, Start_playing 2, Caller, Caller,
      Worker 0 True, Worker 0 True, Worker 0 True] init_player =
   Some \<lparr>play_thread = Some 0, stop_flag = False, queue = [2], threads = [Raised],
         caller = Outside, sounding = []\<rparr> \<and>
   sys_step (map_of [(1::nat, 1::nat), (2, 2)]) (Worker 0 True)
     \<lparr>play_thread = Some 0, stop_flag = False, queue = [2],
      threads = [Raised :: (nat, nat) worker], caller = Outside, sounding = []\<rparr> = None \<and>
   live_workers \<lparr>play_thread = Some 0, stop_flag = False, queue = [2::nat],
      threads = [Raised :: (nat, nat) worker], caller = Outside :: nat caller, sounding = []\<rparr> = 0"
  by code_simp

text \<open>
  C5 (as amended). With the queue empty and no stop requested the worker does not end:
  whatever number of its statements it executes, it is still alive, polling the queue.
  A thread returns from its loop only in a state where the flag is set and the queue is
  empty.
\<close>

theorem worker_outlives_empty_queue:
  assumes "t < length (threads p)" and "threads p ! t = At_while"
    and "queue p = []" and "\<not> stop_flag p"
  shows "(\<exists>p'. run_sys from_wave_file (map (Worker t) bs) p = Some p' \<and>
               is_alive (threads p' ! t) \<and> queue p' = [] \<and> \<not> stop_flag p') \<and>
         (\<forall>u b q q'. worker_step from_wave_file u b q = Some q' \<longrightarrow> is_alive (threads q ! u) \<longrightarrow>
               threads q' ! u = Returned \<longrightarrow> stop_flag q \<and> queue q = [])"
proof -
  from assms obtain p' where
    "run_sys from_wave_file (map (Worker t) bs) p = Some p'" "queue p' = []" "\<not> stop_flag p'"
    "threads p' ! t = At_while \<or> threads p' ! t = At_get"
    using poll_empty_queue[of t p from_wave_file bs] by blast
  then have a: "\<exists>p'. run_sys from_wave_file (map (Worker t) bs) p = Some p' \<and>
               is_alive (threads p' ! t) \<and> queue p' = [] \<and> \<not> stop_flag p'"
    by auto
  have b: "stop_flag q \<and> queue q = []"
    if "worker_step from_wave_file u b q = Some q'" "is_alive (threads q ! u)"
      "threads q' ! u = Returned" for u b q q'
  proof -
    from that(1) obtain q1 s1 w1 where
      u: "u < length (threads q)" and
      st: "play_audio_step from_wave_file b (stop_flag q) (queue q) (sounding q) (threads q ! u) =
             (q1, s1, w1)" and
      q': "q' = q\<lparr>queue := q1, sounding := s1, threads := (threads q)[u := w1]\<rparr>"
      by (auto simp: worker_step_def split: if_splits prod.splits)
    from that(3) u have "w1 = Returned" by (simp add: q')
    with st that(2) show ?thesis
      by (cases "threads q ! u") (auto split: if_splits list.splits option.splits)
  qed
  from a b show ?thesis by blast
qed

theorem worker_outlives_empty_queue_witness:
  "\<exists>p'. run_sys (map_of [(1::nat, 1::nat), (2, 2)])
          (map (Worker 0) [True, False, True])
          \<lparr>play_thread = Some 0, stop_flag = False, queue = [],
           threads = [At_while :: (nat, nat) worker], caller = Outside, sounding = []\<rparr> = Some p' \<and>
        is_alive (threads p' ! 0) \<and> queue p' = [] \<and> \<not> stop_flag p'"
proof -
  let ?p = "\<lparr>play_thread = Some 0, stop_flag = False, queue = [] :: nat list,
      threads = [At_while :: (nat, nat) worker], caller = Outside :: nat caller, sounding = []\<rparr>"
  have "0 < length (threads ?p)" "threads ?p ! 0 = At_while" "queue ?p = []" "\<not> stop_flag ?p"
    by simp_all
  from worker_outlives_empty_queue[OF this] show ?thesis by blast
qed

text \<open>
  C5 as stated fails: after the only buffer has played to its end, the worker is at the
  head of its loop with the queue empty and no stop requested; two statements later
  it is there again, alive.
\<close>

theorem queue_exhaustion_counterexample:
  "run_sys (map_of [(1::nat, 1::nat), (2, 2)])
     [Start_playing 1, Caller, Caller, Worker 0 True, Worker 0 True, Worker 0 True,
      Worker 0 False, Worker 0 False] init_player =
   Some \<lparr>play_thread = Some 0, stop_flag = False, queue = [], threads = [At_while],
         caller = Outside, sounding = []\<rparr> \<and>
   run_sys (map_of [(1::nat, 1::nat), (2, 2)]) [Worker 0 False, Worker 0 False]
     \<lparr>play_thread = Some 0, stop_flag = False, queue = [],
      threads = [At_while :: (nat, nat) worker], caller = Outside, sounding = []\<rparr> =
   Some \<lparr>play_thread = Some 0, stop_flag = False, queue = [], threads = [At_while],
         caller = Outside, sounding = []\<rparr> \<and>
   thread_alive \<lparr>play_thread = Some 0, stop_flag = False, queue = [] :: nat list,
      threads = [At_while :: (nat, nat) worker], caller = Outside :: nat caller, sounding = []\<rparr>"
  by code_simp

text \<open>
  C2. For a text frame that begins with \<^verbatim>\<open>[+]\<close>, the dispatcher makes two calls, in
  this order: \<^verbatim>\<open>stop_playing\<close>, then \<^verbatim>\<open>print\<close> of the frame. In every state of the
  player that can be reached, with the caller outside the player, the first call
  returns, and it returns a world in which the console is still the one from before the
  frame, while the player is the one \<^verbatim>\<open>stop_playing\<close> leaves: no worker thread is
  alive, no play object is sounding, and no worker can execute a statement any more.
  Only the second call, made in that world, puts the frame on the console.
\<close>

theorem interrupt_stops_before_display:
  assumes "prefix ''[+]'' message"
    and "run_sys from_wave_file acts init_player = Some (audio_player w)"
    and "caller (audio_player w) = Outside"
  shows "receive_message_calls from_mp3 (Str message) =
           ([Call_stop_playing, Call_print message ''\<newline>''], Continue) \<and>
         do_calls from_wave_file (fst (receive_message_calls from_mp3 (Str message))) w =
           [w\<lparr>audio_player := stop_playing from_wave_file (audio_player w)\<rparr>,
            w\<lparr>audio_player := stop_playing from_wave_file (audio_player w),
              console := console w @ message @ ''\<newline>''\<rparr>] \<and>
         live_workers (stop_playing from_wave_file (audio_player w)) = 0 \<and>
         sounding (stop_playing from_wave_file (audio_player w)) = [] \<and>
         (\<forall>t playing.
            worker_step from_wave_file t playing (stop_playing from_wave_file (audio_player w)) =
              None) \<and>
         receive_message_body from_wave_file from_mp3 (Str message) w =
           (w\<lparr>audio_player := stop_playing from_wave_file (audio_player w),
              console := console w @ message @ ''\<newline>''\<rparr>, Continue)"
proof -
  let ?d = from_wave_file
  let ?p1 = "stop_playing ?d (audio_player w)"
  have calls: "receive_message_calls from_mp3 (Str message) =
           ([Call_stop_playing, Call_print message ''\<newline>''], Continue)"
    using assms(1) interrupt_not_turn_end[OF assms(1)] by simp
  have trace: "do_calls ?d [Call_stop_playing, Call_print message ''\<newline>''] w =
           [w\<lparr>audio_player := ?p1\<rparr>,
            w\<lparr>audio_player := ?p1, console := console w @ message @ ''\<newline>''\<rparr>]"
    by (simp add: print_end_def)
  from assms(2) have "player_inv (audio_player w)" by (rule inv_reachable)
  then have lw: "live_workers ?p1 = 0" by (rule stop_playing_no_workers)
  from assms(2,3) have si: "sounding ?p1 = []" by (rule stop_playing_silent)
  from lw have ns: "\<forall>t playing. worker_step ?d t playing ?p1 = None"
    by (simp add: no_worker_no_step)
  have body: "receive_message_body ?d from_mp3 (Str message) w =
                (w\<lparr>audio_player := ?p1, console := console w @ message @ ''\<newline>''\<rparr>, Continue)"
    unfolding receive_message_body_def calls using trace by simp
  from calls trace have trace': "do_calls ?d (fst (receive_message_calls from_mp3 (Str message))) w =
           [w\<lparr>audio_player := ?p1\<rparr>,
            w\<lparr>audio_player := ?p1, console := console w @ message @ ''\<newline>''\<rparr>]"
    by simp
  from calls trace' lw si ns body show ?thesis by blast
qed

theorem interrupt_stops_before_display_witness:
  "do_calls (map_of [(1::nat, 1::nat)])
     (fst (receive_message_calls (map_of [(1::nat, 1::nat)]) (Str ''[+]Done talking'')))
     \<lparr>audio_player =
        \<lparr>play_thread = Some 0, stop_flag = False, queue = [],
         threads = [At_is_playing 1], caller = Outside, sounding = [1]\<rparr>,
      console = ''Hi''\<rparr> =
   [\<lparr>audio_player =
        \<lparr>play_thread = None, stop_flag = True, queue = [],
         threads = [Returned], caller = Outside, sounding = []\<rparr>,
      console = ''Hi''\<rparr>,
    \<lparr>audio_player =
        \<lparr>play_thread = None, stop_flag = True, queue = [],
         threads = [Returned], caller = Outside, sounding = []\<rparr>,
      console = ''Hi[+]Done talking\<newline>''\<rparr>]"
proof -
  let ?d = "map_of [(1::nat, 1::nat)]"
  let ?p = "\<lparr>play_thread = Some 0, stop_flag = False, queue = [] :: nat list,
         threads = [At_is_playing (1::nat)], caller = Outside :: nat caller, sounding = [1]\<rparr>"
  let ?w = "\<lparr>audio_player = ?p, console = ''Hi''\<rparr>"
  have h1: "prefix ''[+]'' ''[+]Done talking''" by simp
  have "run_sys ?d [Start_playing 1, Caller, Caller, Worker 0 True, Worker 0 True, Worker 0 True]
          init_player = Some ?p"
    by code_simp
  then have h2: "run_sys ?d [Start_playing 1, Caller, Caller, Worker 0 True, Worker 0 True, Worker 0 True]
          init_player = Some (audio_player ?w)" by simp
  have h3: "caller (audio_player ?w) = Outside" by simp
  have st: "stop_playing ?d ?p =
      \<lparr>play_thread = None, stop_flag = True, queue = [],
         threads = [Returned], caller = Outside, sounding = []\<rparr>"
    by code_simp
  from interrupt_stops_before_display[OF h1 h2 h3, where ?from_mp3.0 = ?d] st
  show ?thesis by simp
qed




text \<open>
  C7 (as amended). For a text frame that begins with \<^verbatim>\<open>[+]\<close>, what is written to the
  console is the whole frame, the prefix included, followed by a newline.
\<close>

theorem interrupt_text_displayed_whole:
  assumes "prefix ''[+]'' message"
  shows "console (fst (receive_message_body from_wave_file from_mp3 (Str message) w)) =
           console w @ message @ ''\<newline>''"
  using assms interrupt_not_turn_end[OF assms]
  by (simp add: receive_message_body_def print_end_def)

theorem interrupt_text_displayed_whole_witness:
  "console (fst (receive_message_body (map_of [(1::nat, 1::nat)]) (map_of [(1::nat, 1::nat)])
     (Str ''[+]Done talking'') \<lparr>audio_player = init_player, console = ''Hi''\<rparr>)) =
   ''Hi[+]Done talking\<newline>''"
proof -
  have h: "prefix ''[+]'' ''[+]Done talking''" by simp
  from interrupt_text_displayed_whole[where message = "''[+]Done talking''"
      and from_wave_file = "map_of [(1::nat, 1::nat)]" and ?from_mp3.0 = "map_of [(1::nat, 1::nat)]"
      and w = "\<lparr>audio_player = init_player, console = ''Hi''\<rparr>", OF h]
  show ?thesis by simp
qed

text \<open>
  C7 as stated fails: for the frame \<^verbatim>\<open>[+]Done talking\<close> the console shows the prefix
  too, not only the remainder of the frame.
\<close>

theorem interrupt_prefix_counterexample:
  "console (fst (receive_message_body (map_of [(1::nat, 1::nat)]) (map_of [(1::nat, 1::nat)])
     (Str ''[+]Done talking'') \<lparr>audio_player = init_player, console = ''''\<rparr>)) =
   ''[+]Done talking\<newline>'' \<and>
   ''[+]Done talking\<newline>'' \<noteq> ''Done talking'' \<and>
   ''[+]Done talking\<newline>'' \<noteq> ''Done talking\<newline>''"
  by (simp add: receive_message_body_def print_end_def stop_playing_def init_player_def)

text \<open>
  C8. For the text frame \<^verbatim>\<open>[end]\<close> followed by a newline, the dispatcher writes the
  prompt (a newline and \<^verbatim>\<open>You: \<close>) once, writes nothing of the marker, leaves the
  player as it is and goes on with the loop.
\<close>

theorem turn_end_prompt:
  "receive_message_body from_wave_file from_mp3 (Str ''[end]\<newline>'') w =
     (w\<lparr>console := console w @ ''\<newline>You: ''\<rparr>, Continue)"
  by (simp add: receive_message_body_def print_end_def)

theorem turn_end_prompt_witness:
  "receive_message_body (map_of [(1::nat, 1::nat)]) (map_of [(1::nat, 1::nat)])
     (Str ''[end]\<newline>'')
     \<lparr>audio_player =
        \<lparr>play_thread = Some 0, stop_flag = False, queue = [2],
         threads = [At_is_playing 1], caller = Outside, sounding = [1]\<rparr>,
      console = ''Hi''\<rparr> =
   (\<lparr>audio_player =
        \<lparr>play_thread = Some 0, stop_flag = False, queue = [2],
         threads = [At_is_playing 1], caller = Outside, sounding = [1]\<rparr>,
      console = ''Hi\<newline>You: ''\<rparr>, Continue)"
  using turn_end_prompt[where w = "\<lparr>audio_player =
        \<lparr>play_thread = Some 0, stop_flag = False, queue = [2::nat],
         threads = [At_is_playing (1::nat)], caller = Outside, sounding = [1]\<rparr>,
      console = ''Hi''\<rparr>" and from_wave_file = "map_of [(1::nat, 1::nat)]"
      and ?from_mp3.0 = "map_of [(1::nat, 1::nat)]"]
  by simp

text \<open>
  C9 (as amended). The mode string is compared after lowercasing: \<^verbatim>\<open>a\<close> and \<^verbatim>\<open>A\<close>
  select the audio producer, every other string selects the text producer; whenever
  \<^verbatim>\<open>start_client\<close> gets to create its tasks, exactly one of them is a producer.
\<close>

theorem mode_selects_producer:
  assumes "create_tasks mode device = Some ts"
  shows "length (filter is_producer ts) = 1 \<and>
         (if mode = ''a'' \<or> mode = ''A''
          then \<exists>device_id. device = Some device_id \<and> ts = [Handle_audio device_id, Receive_message]
          else ts = [Handle_text, Receive_message])"
proof (cases "lower mode = ''a''")
  case True
  with assms obtain device_id where "device = Some device_id"
    "ts = [Handle_audio device_id, Receive_message]"
    by (cases device) (simp_all add: create_tasks_def)
  moreover from True have "mode = ''a'' \<or> mode = ''A''" using lower_a[of mode] by blast
  ultimately show ?thesis by simp
next
  case False
  with assms have "ts = [Handle_text, Receive_message]" by (simp add: create_tasks_def)
  moreover from False have "\<not> (mode = ''a'' \<or> mode = ''A'')" using lower_a[of mode] by blast
  ultimately show ?thesis by simp
qed

theorem mode_selects_producer_witness:
  "create_tasks ''t'' (None :: nat option) = Some [Handle_text, Receive_message] \<and>
   length (filter is_producer [Handle_text :: nat coroutine, Receive_message]) = 1"
proof -
  have h: "create_tasks ''t'' (None :: nat option) = Some [Handle_text, Receive_message]"
    by code_simp
  from mode_selects_producer[OF h] h show ?thesis by blast
qed

text \<open>
  C9 as stated fails: the mode string \<^verbatim>\<open>A\<close> is not \<^verbatim>\<open>a\<close>, yet it selects the audio
  producer.
\<close>

theorem upper_case_mode_counterexample:
  "''A'' \<noteq> ''a'' \<and>
   create_tasks ''A'' (Some (0::nat)) = Some [Handle_audio 0, Receive_message]"
  by code_simp

text \<open>
  C10. A text frame that is not exactly \<^verbatim>\<open>[end]\<close> followed by a newline and does not
  begin with \<^verbatim>\<open>[+]\<close> is appended to the console as it is, with nothing after it, and
  the player is left as it is. The witness is the frame \<^verbatim>\<open>[end]\<close> without the newline.
\<close>

theorem plain_text_verbatim:
  assumes "message \<noteq> ''[end]\<newline>''" and "\<not> prefix ''[+]'' message"
  shows "receive_message_body from_wave_file from_mp3 (Str message) w =
           (w\<lparr>console := console w @ message\<rparr>, Continue)"
  using assms by (simp add: receive_message_body_def print_end_def)

theorem plain_text_verbatim_witness:
  "''[end]'' \<noteq> ''[end]\<newline>'' \<and> \<not> prefix ''[+]'' ''[end]'' \<and>
   receive_message_body (map_of [(1::nat, 1::nat)]) (map_of [(1::nat, 1::nat)])
     (Str ''[end]'') \<lparr>audio_player = init_player, console = ''Hi''\<rparr> =
   (\<lparr>audio_player = init_player, console = ''Hi[end]''\<rparr>, Continue)"
proof -
  have h1: "''[end]'' \<noteq> ''[end]\<newline>''" by simp
  have h2: "\<not> prefix ''[+]'' ''[end]''" by simp
  from plain_text_verbatim[where message = "''[end]''"
      and from_wave_file = "map_of [(1::nat, 1::nat)]" and ?from_mp3.0 = "map_of [(1::nat, 1::nat)]"
      and w = "\<lparr>audio_player = init_player, console = ''Hi''\<rparr>", OF h1 h2] h1 h2
  show ?thesis by simp
qed


end
